theory Spec2Isabelle
  imports Main "HOL-Library.Monad_Syntax"
begin

section \<open>Characters and the constants of the package\<close>

text \<open>
  A Go string is a sequence of bytes; it is modelled as a \<^typ>\<open>string\<close>, one
  \<^typ>\<open>char\<close> per byte. The scanner delivers one character per byte as long as the
  text is ASCII, which is the range the model is exact for.
\<close>

abbreviation tokenSectionStart :: char where "tokenSectionStart \<equiv> CHR ''[''"
abbreviation tokenSectionStop :: char where "tokenSectionStop \<equiv> CHR '']''"
abbreviation tokenCommentClassic :: char where "tokenCommentClassic \<equiv> CHR '';''"
abbreviation tokenCommentHash :: char where "tokenCommentHash \<equiv> CHR ''#''"
abbreviation tokenSpace :: char where "tokenSpace \<equiv> CHR '' ''"
abbreviation tokenLF :: char where "tokenLF \<equiv> CHR 0x0A"
abbreviation tokenCR :: char where "tokenCR \<equiv> CHR 0x0D"
abbreviation tokenTab :: char where "tokenTab \<equiv> CHR 0x09"
abbreviation tokenQuote :: char where "tokenQuote \<equiv> CHR 0x22"
abbreviation tokenBackslash :: char where "tokenBackslash \<equiv> CHR 0x5C"
abbreviation tokenEquals :: char where "tokenEquals \<equiv> CHR ''=''"

section \<open>The store\<close>

text \<open>
  \<^verbatim>\<open>type Ini struct { data map[string]map[string]string; rw sync.RWMutex }\<close>.
  Every operation holds the lock for its whole duration, so each is one atomic
  function on the nested map.
\<close>

type_synonym Ini = "string \<rightharpoonup> (string \<rightharpoonup> string)"

definition NewIni :: Ini where
  "NewIni = Map.empty"

definition Get :: "Ini \<Rightarrow> string \<Rightarrow> string \<Rightarrow> string" where
  "Get ini section key =
     (case ini section of
        None \<Rightarrow> []
      | Some m \<Rightarrow> (case m key of None \<Rightarrow> [] | Some v \<Rightarrow> v))"

definition Has :: "Ini \<Rightarrow> string \<Rightarrow> string \<Rightarrow> bool" where
  "Has ini section key =
     (case ini section of
        None \<Rightarrow> False
      | Some m \<Rightarrow> (case m key of None \<Rightarrow> False | Some v \<Rightarrow> True))"

text \<open>The unlocked \<^verbatim>\<open>set\<close>; \<^verbatim>\<open>Set\<close> is the same under the write lock.\<close>

definition set_unsafe :: "Ini \<Rightarrow> string \<Rightarrow> string \<Rightarrow> string \<Rightarrow> Ini" where
  "set_unsafe ini section key v =
     (let m = (case ini section of None \<Rightarrow> Map.empty | Some m \<Rightarrow> m)
      in ini(section \<mapsto> m(key \<mapsto> v)))"

definition Set :: "Ini \<Rightarrow> string \<Rightarrow> string \<Rightarrow> string \<Rightarrow> Ini" where
  "Set ini section key v = set_unsafe ini section key v"

section \<open>The lexical scanner\<close>

text \<open>
  Modelled from the spec: the lexical scanner is Go's \<^verbatim>\<open>text/scanner\<close>, a library
  outside the repository, which the spec treats as a black box that yields one
  character or one quoted-string token at a time, an end-of-input marker, and skips
  horizontal tabs. The model follows the library's documented behaviour under the
  configuration the parser sets (\<^verbatim>\<open>Mode = ScanStrings\<close>,
  \<^verbatim>\<open>Whitespace = 1 << '\t'\<close>) for the four calls the parser makes:
  \<^verbatim>\<open>Peek\<close>, \<^verbatim>\<open>Scan\<close>, \<^verbatim>\<open>Pos\<close> and \<^verbatim>\<open>TokenText\<close>. The diagnostics the library prints
  to standard error (unterminated literal, bad escape) change no result and are left out.
\<close>

datatype token = EOF | String | Rune char

record Position =
  Line :: int
  Column :: int

text \<open>
  \<open>rest\<close> is the unread input, starting with the look-ahead character; \<open>line\<close> and
  \<open>column\<close> are the position of that character (lines and columns count from 1, a line
  feed is the last character of its line); \<open>tokenText\<close> is the text of the last token.
\<close>

record Scanner =
  rest :: string
  line :: int
  column :: int
  tokenText :: string

definition Init :: "string \<Rightarrow> Scanner" where
  "Init r = \<lparr>rest = r, line = 1, column = 1, tokenText = []\<rparr>"

definition Peek :: "Scanner \<Rightarrow> token" where
  "Peek s = (case rest s of [] \<Rightarrow> EOF | c # cs \<Rightarrow> Rune c)"

definition Pos :: "Scanner \<Rightarrow> Position" where
  "Pos s = \<lparr>Line = line s, Column = column s\<rparr>"

definition TokenText :: "Scanner \<Rightarrow> string" where
  "TokenText s = tokenText s"

text \<open>\<^verbatim>\<open>next\<close>: consume the look-ahead character; at end of input nothing changes.\<close>

definition nextc :: "Scanner \<Rightarrow> Scanner" where
  "nextc s =
     (case rest s of
        [] \<Rightarrow> s
      | c # cs \<Rightarrow>
          if c = tokenLF then s\<lparr>rest := cs, line := line s + 1, column := 1\<rparr>
          else s\<lparr>rest := cs, column := column s + 1\<rparr>)"

primrec consume :: "string \<Rightarrow> Scanner \<Rightarrow> Scanner" where
  "consume [] s = s"
| "consume (c # cs) s = consume cs (nextc s)"

definition digitVal :: "char \<Rightarrow> nat" where
  "digitVal c =
     (let n = of_char c :: nat in
      if 48 \<le> n \<and> n \<le> 57 then n - 48
      else if 97 \<le> n \<and> n \<le> 102 then n - 97 + 10
      else if 65 \<le> n \<and> n \<le> 70 then n - 65 + 10
      else 16)"

text \<open>
  \<^verbatim>\<open>scanDigits\<close>: at most \<open>n\<close> digits of the base; returns the digits consumed and
  what follows them.
\<close>

fun scanDigits :: "string \<Rightarrow> nat \<Rightarrow> nat \<Rightarrow> string \<times> string" where
  "scanDigits cs base 0 = ([], cs)"
| "scanDigits [] base (Suc n) = ([], [])"
| "scanDigits (c # cs) base (Suc n) =
     (if digitVal c < base
      then (let (ds, r) = scanDigits cs base n in (c # ds, r))
      else ([], c # cs))"

text \<open>
  \<^verbatim>\<open>scanEscape\<close>, called on the text after a backslash: returns what the escape
  consumes and what follows. An unknown escape character is not consumed: the
  string loop examines it next.
\<close>

definition scanEscape :: "string \<Rightarrow> string \<times> string" where
  "scanEscape cs =
     (case cs of
        [] \<Rightarrow> ([], [])
      | c # r \<Rightarrow>
          if c \<in> set ''abfnrtv'' \<or> c = tokenBackslash \<or> c = tokenQuote then ([c], r)
          else if c \<in> set ''01234567'' then scanDigits (c # r) 8 3
          else if c = CHR ''x'' then (let (ds, r') = scanDigits r 16 2 in (c # ds, r'))
          else if c = CHR ''u'' then (let (ds, r') = scanDigits r 16 4 in (c # ds, r'))
          else if c = CHR ''U'' then (let (ds, r') = scanDigits r 16 8 in (c # ds, r'))
          else ([], c # r))"

lemma scanDigits_length: "length (snd (scanDigits cs b n)) \<le> length cs"
  by (induction cs b n rule: scanDigits.induct) (auto split: prod.splits)

lemma scanEscape_length: "length (snd (scanEscape cs)) \<le> length cs"
proof (cases cs)
  case Nil
  then show ?thesis by (simp add: scanEscape_def)
next
  case (Cons c r)
  have a: "length (snd (scanDigits (c # r) 8 3)) \<le> Suc (length r)"
    using scanDigits_length [of "c # r" 8 3] by simp
  have b: "\<And>n. length (snd (scanDigits r 16 n)) \<le> Suc (length r)"
    using scanDigits_length [of r 16] by (simp add: le_SucI)
  show ?thesis
    using Cons a b by (simp add: scanEscape_def split: prod.splits) (metis snd_conv)
qed

text \<open>
  \<^verbatim>\<open>scanString\<close>, called on the text after the opening quote: returns the text of
  the literal after the opening quote and what follows the literal. The literal ends
  with the closing quote; left unterminated, it ends with the line feed that
  interrupts it (which is consumed) or at end of input.
\<close>

function scanString :: "string \<Rightarrow> string \<times> string" where
  "scanString [] = ([], [])"
| "scanString (c # cs) =
     (if c = tokenQuote then ([c], cs)
      else if c = tokenLF then ([c], cs)
      else if c = tokenBackslash then
        (let (e, r) = scanEscape cs; (lit, r') = scanString r in (c # e @ lit, r'))
      else (let (lit, r') = scanString cs in (c # lit, r')))"
  by pat_completeness auto
termination
proof (relation "measure length")
  show "wf (measure length)" by simp
next
  fix c cs x e r
  assume "x = scanEscape cs" "(e, r) = x"
  then have "r = snd (scanEscape cs)" by (metis snd_conv)
  then show "(r, c # cs) \<in> measure length"
    using scanEscape_length [of cs] by simp
qed simp

text \<open>
  \<^verbatim>\<open>Scan\<close>: skip the tabs, then return the next token. A double quote starts a string
  token, whether the literal is terminated or not; every other character is a token of
  its own.
\<close>

definition Scan :: "Scanner \<Rightarrow> token \<times> Scanner" where
  "Scan s0 =
     (let s = consume (takeWhile (\<lambda>c. c = tokenTab) (rest s0)) s0 in
      case rest s of
        [] \<Rightarrow> (EOF, s\<lparr>tokenText := []\<rparr>)
      | c # cs \<Rightarrow>
          if c = tokenQuote then
            (let (lit, r) = scanString cs
             in (String, (consume (c # lit) s)\<lparr>tokenText := c # lit\<rparr>))
          else (Rune c, (nextc s)\<lparr>tokenText := [c]\<rparr>))"

section \<open>The sub-readers\<close>

text \<open>
  The package has the parser twice, as methods of \<^verbatim>\<open>Ini\<close> (\<^verbatim>\<open>ReadFrom\<close>) and as
  free functions (\<^verbatim>\<open>Load\<close>); the four sub-readers are the same text in both and are
  modelled once. An error is the value of \<^verbatim>\<open>fmt.Errorf(msg + " %s", pos.String())\<close>:
  the message and the position that is printed after it.
\<close>

datatype error = Errorf string Position

text \<open>
  \<^verbatim>\<open>buffer.WriteRune(token)\<close>: a character is appended as it is; the negative token
  values (\<^verbatim>\<open>EOF\<close>, \<^verbatim>\<open>String\<close>) are no valid rune and are written as U+FFFD.
\<close>

definition WriteRune :: "string \<Rightarrow> token \<Rightarrow> string" where
  "WriteRune buffer t =
     (case t of
        Rune c \<Rightarrow> buffer @ [c]
      | _ \<Rightarrow> buffer @ [CHR 0xEF, CHR 0xBF, CHR 0xBD])"

text \<open>\<^verbatim>\<open>strings.TrimLeft\<close> and \<^verbatim>\<open>strings.TrimRight\<close> with a cutset.\<close>

definition TrimLeft :: "string \<Rightarrow> string \<Rightarrow> string" where
  "TrimLeft s cutset = dropWhile (\<lambda>c. c \<in> set cutset) s"

definition TrimRight :: "string \<Rightarrow> string \<Rightarrow> string" where
  "TrimRight s cutset = rev (dropWhile (\<lambda>c. c \<in> set cutset) (rev s))"

text \<open>
  \<^verbatim>\<open>readSection\<close> and \<^verbatim>\<open>readCommentLine\<close> have no case for end of input, so
  their loops need not end: not returning is the value \<open>None\<close>.
\<close>

partial_function (option) readSection_loop ::
  "string \<Rightarrow> Scanner \<Rightarrow> ((error + string) \<times> Scanner) option" where
  "readSection_loop buffer s =
     (let pos = Pos s; ts = Scan s; token = fst ts; s' = snd ts in
      if token = Rune tokenSectionStart then readSection_loop buffer s'
      else if token = Rune tokenSectionStop then Some (Inr buffer, s')
      else if token = Rune tokenLF \<or> token = Rune tokenCR then
        Some (Inl (Errorf ''While reading a section, got newline.'' pos), s')
      else readSection_loop (WriteRune buffer token) s')"

declare readSection_loop.simps [code]

definition readSection :: "Scanner \<Rightarrow> ((error + string) \<times> Scanner) option" where
  "readSection s = readSection_loop [] s"

partial_function (option) readCommentLine :: "Scanner \<Rightarrow> Scanner option" where
  "readCommentLine s =
     (let ts = Scan s; token = fst ts; s' = snd ts in
      if token = Rune tokenLF then Some s' else readCommentLine s')"

declare readCommentLine.simps [code]

lemma rest_nextc: "rest (nextc s) = tl (rest s)"
  by (simp add: nextc_def split: list.splits)

lemma rest_consume: "rest (consume cs s) = drop (length cs) (rest s)"
  by (induction cs arbitrary: s) (simp_all add: rest_nextc drop_Suc tl_drop)

lemma scanDigits_append: "scanDigits cs b n = (ds, r) \<Longrightarrow> ds @ r = cs"
  by (induction cs b n arbitrary: ds r rule: scanDigits.induct)
     (auto split: prod.splits if_splits)

lemma scanDigits_collapse: "fst (scanDigits cs b n) @ snd (scanDigits cs b n) = cs"
  using scanDigits_append [of cs b n] by (metis prod.collapse)

lemma scanEscape_collapse: "fst (scanEscape cs) @ snd (scanEscape cs) = cs"
proof (cases cs)
  case Nil
  then show ?thesis by (simp add: scanEscape_def)
next
  case (Cons c t)
  consider (simple) "c \<in> set ''abfnrtv'' \<or> c = tokenBackslash \<or> c = tokenQuote"
    | (oct) "\<not> (c \<in> set ''abfnrtv'' \<or> c = tokenBackslash \<or> c = tokenQuote)" "c \<in> set ''01234567''"
    | (other) "\<not> (c \<in> set ''abfnrtv'' \<or> c = tokenBackslash \<or> c = tokenQuote)" "c \<notin> set ''01234567''"
    by blast
  then show ?thesis
  proof cases
    case simple
    then show ?thesis unfolding scanEscape_def Cons list.case by (simp only: if_True fst_conv snd_conv append_Cons append_Nil)
  next
    case oct
    then show ?thesis unfolding scanEscape_def Cons list.case
      by (simp only: if_True if_False scanDigits_collapse)
  next
    case other
    then show ?thesis unfolding scanEscape_def Cons list.case
      by (simp only: if_False) (simp add: split_beta scanDigits_collapse)
  qed
qed

lemma scanEscape_append: "scanEscape cs = (e, r) \<Longrightarrow> e @ r = cs"
  using scanEscape_collapse [of cs] by simp

lemma scanString_append: "scanString cs = (lit, r) \<Longrightarrow> lit @ r = cs"
proof (induction cs arbitrary: lit r rule: scanString.induct)
  case 1
  then show ?case by simp
next
  case (2 c cs)
  show ?case
  proof (cases "c = tokenQuote \<or> c = tokenLF")
    case True
    with "2.prems" show ?thesis by (auto split: if_splits)
  next
    case plain: False
    show ?thesis
    proof (cases "c = tokenBackslash")
      case True
      obtain e r1 where e: "scanEscape cs = (e, r1)" by (cases "scanEscape cs")
      obtain l2 r2 where l: "scanString r1 = (l2, r2)" by (cases "scanString r1")
      from plain True e have "l2 @ r2 = r1"
        using "2.IH"(1) [OF _ _ _ refl e [symmetric] l] by simp
      moreover from e have "e @ r1 = cs" by (rule scanEscape_append)
      moreover from "2.prems" plain True e l have "lit = c # e @ l2" "r = r2" by simp_all
      ultimately show ?thesis by simp
    next
      case False
      obtain l2 r2 where l: "scanString cs = (l2, r2)" by (cases "scanString cs")
      from plain False have "l2 @ r2 = cs" using "2.IH"(2) [OF _ _ _ l] by simp
      moreover from "2.prems" plain False l have "lit = c # l2" "r = r2" by simp_all
      ultimately show ?thesis by simp
    qed
  qed
qed

text \<open>What \<^verbatim>\<open>Scan\<close> returns and leaves unread, in terms of the unread input alone.\<close>

lemma rest_skip:
  "rest (consume (takeWhile (\<lambda>c. c = tokenTab) (rest s)) s) =
     dropWhile (\<lambda>c. c = tokenTab) (rest s)"
  by (simp add: rest_consume dropWhile_eq_drop)

lemma Scan_fst:
  "fst (Scan s) =
     (case dropWhile (\<lambda>c. c = tokenTab) (rest s) of
        [] \<Rightarrow> EOF
      | c # cs \<Rightarrow> if c = tokenQuote then String else Rune c)"
proof -
  define d where "d = dropWhile (\<lambda>c. c = tokenTab) (rest s)"
  show ?thesis
    unfolding Scan_def Let_def rest_skip d_def [symmetric]
    by (cases d) (simp_all split: prod.splits)
qed

lemma Scan_rest:
  "rest (snd (Scan s)) =
     (case dropWhile (\<lambda>c. c = tokenTab) (rest s) of
        [] \<Rightarrow> []
      | c # cs \<Rightarrow> if c = tokenQuote then snd (scanString cs) else cs)"
proof -
  define d where "d = dropWhile (\<lambda>c. c = tokenTab) (rest s)"
  define s1 where "s1 = consume (takeWhile (\<lambda>c. c = tokenTab) (rest s)) s"
  have s1: "rest s1 = d"
    unfolding s1_def d_def by (rule rest_skip)
  have "drop (length lit) cs = r" if "scanString cs = (lit, r)" for cs lit r
    using scanString_append [OF that] by auto
  then show ?thesis
    unfolding Scan_def Let_def s1_def [symmetric] d_def [symmetric] s1
    by (cases d) (simp_all add: rest_consume rest_nextc s1 split: prod.splits)
qed

lemma scanString_length: "length (snd (scanString cs)) \<le> length cs"
  using scanString_append [of cs "fst (scanString cs)" "snd (scanString cs)"]
  by (metis append_eq_conv_conj length_drop diff_le_self prod.collapse)

lemma Scan_progress:
  "fst (Scan s) \<noteq> EOF \<Longrightarrow> length (rest (snd (Scan s))) < length (rest s)"
proof -
  assume a: "fst (Scan s) \<noteq> EOF"
  let ?d = "dropWhile (\<lambda>c. c = tokenTab) (rest s)"
  from a obtain c cs where d: "?d = c # cs"
    by (cases ?d) (simp_all add: Scan_fst)
  have "length ?d \<le> length (rest s)" by (rule length_dropWhile_le)
  with d have "length cs < length (rest s)" by simp
  moreover have "length (rest (snd (Scan s))) \<le> length cs"
    using scanString_length [of cs] by (simp add: Scan_rest d)
  ultimately show ?thesis by simp
qed

function readValue_loop :: "string \<Rightarrow> Scanner \<Rightarrow> (error + string) \<times> Scanner" where
  "readValue_loop buffer s =
     (let ts = Scan s; token = fst ts; s' = snd ts in
      if token = EOF then (Inr buffer, s')
      else if token = String then
        (Inr (TrimRight (TrimLeft (TokenText s') [tokenQuote]) [tokenQuote]), s')
      else if token = Rune tokenLF then (Inr buffer, s')
      else if token = Rune tokenCR then readValue_loop buffer s'
      else if token = Rune tokenSpace then
        (if length buffer = 0 then readValue_loop buffer s'
         else readValue_loop (WriteRune buffer token) s')
      else readValue_loop (WriteRune buffer token) s')"
  by pat_completeness auto
termination
  by (relation "measure (\<lambda>(buffer, s). length (rest s))") (simp_all add: Scan_progress)

declare readValue_loop.simps [simp del]

definition readValue :: "Scanner \<Rightarrow> (error + string) \<times> Scanner" where
  "readValue s = readValue_loop [] s"

function readKey_loop :: "string \<Rightarrow> Scanner \<Rightarrow> (error + string) \<times> Scanner" where
  "readKey_loop buffer s =
     (let pos = Pos s; ts = Scan s; token = fst ts; s' = snd ts in
      if token = EOF then (Inl (Errorf ''While reading a key, got EOF.'' pos), s')
      else if token = Rune tokenSpace then readKey_loop buffer s'
      else if token = Rune tokenEquals then (Inr buffer, s')
      else if token = String then (Inl (Errorf ''While reading a key, got string.'' pos), s')
      else readKey_loop (WriteRune buffer token) s')"
  by pat_completeness auto
termination
  by (relation "measure (\<lambda>(buffer, s). length (rest s))") (simp_all add: Scan_progress)

declare readKey_loop.simps [simp del]

definition readKey :: "Scanner \<Rightarrow> (error + string) \<times> Scanner" where
  "readKey s = readKey_loop [] s"

section \<open>The parser\<close>

text \<open>
  \<^verbatim>\<open>ReadFrom\<close> writes into its receiver as it goes and returns
  \<^verbatim>\<open>(int64, error)\<close>; the model returns the receiver as the call leaves it, too.
\<close>

partial_function (option) ReadFrom_loop ::
  "Ini \<Rightarrow> string \<Rightarrow> Scanner \<Rightarrow> (Ini \<times> int \<times> error option) option" where
  "ReadFrom_loop ini currentSection s =
     (let token = Peek s in
      if token = EOF then Some (ini, 0, None)
      else if token = Rune tokenCommentClassic \<or> token = Rune tokenCommentHash then
        (case readCommentLine s of
           None \<Rightarrow> None
         | Some s' \<Rightarrow> ReadFrom_loop ini currentSection s')
      else if token = Rune tokenLF \<or> token = Rune tokenCR then
        ReadFrom_loop ini currentSection (snd (Scan s))
      else if token = Rune tokenSectionStart then
        (case readSection s of
           None \<Rightarrow> None
         | Some (Inl err, s') \<Rightarrow> Some (ini, - 1, Some err)
         | Some (Inr sec, s') \<Rightarrow> ReadFrom_loop ini sec s')
      else
        (case readKey s of
           (Inl err, s1) \<Rightarrow> Some (ini, - 1, Some err)
         | (Inr key, s1) \<Rightarrow>
             (case readValue s1 of
                (Inl err, s2) \<Rightarrow> Some (ini, - 1, Some err)
              | (Inr v, s2) \<Rightarrow>
                  ReadFrom_loop (set_unsafe ini currentSection key v) currentSection s2)))"

declare ReadFrom_loop.simps [code]

definition ReadFrom :: "Ini \<Rightarrow> string \<Rightarrow> (Ini \<times> int \<times> error option) option" where
  "ReadFrom ini r = ReadFrom_loop ini [] (Init r)"

text \<open>\<^verbatim>\<open>Load\<close> returns \<^verbatim>\<open>(*Ini, error)\<close>: the store or \<^verbatim>\<open>nil\<close>, the error or \<^verbatim>\<open>nil\<close>.\<close>

partial_function (option) Load_loop ::
  "Ini \<Rightarrow> string \<Rightarrow> Scanner \<Rightarrow> (Ini option \<times> error option) option" where
  "Load_loop ini currentSection s =
     (let token = Peek s in
      if token = EOF then Some (Some ini, None)
      else if token = Rune tokenCommentClassic \<or> token = Rune tokenCommentHash then
        (case readCommentLine s of
           None \<Rightarrow> None
         | Some s' \<Rightarrow> Load_loop ini currentSection s')
      else if token = Rune tokenLF \<or> token = Rune tokenCR then
        Load_loop ini currentSection (snd (Scan s))
      else if token = Rune tokenSectionStart then
        (case readSection s of
           None \<Rightarrow> None
         | Some (Inl err, s') \<Rightarrow> Some (None, Some err)
         | Some (Inr sec, s') \<Rightarrow> Load_loop ini sec s')
      else
        (case readKey s of
           (Inl err, s1) \<Rightarrow> Some (None, Some err)
         | (Inr key, s1) \<Rightarrow>
             (case readValue s1 of
                (Inl err, s2) \<Rightarrow> Some (None, Some err)
              | (Inr v, s2) \<Rightarrow> Load_loop (Set ini currentSection key v) currentSection s2)))"

declare Load_loop.simps [code]

definition Load :: "string \<Rightarrow> (Ini option \<times> error option) option" where
  "Load r = Load_loop NewIni [] (Init r)"

section \<open>The serializer\<close>

text \<open>
  \<^verbatim>\<open>%q\<close> is \<^verbatim>\<open>strconv.Quote\<close>: the value between double quotes, a double quote and a
  backslash escaped by a backslash, every other printable ASCII character as it is,
  the control characters by their escapes. A byte from 0x80 on is written as
  \<^verbatim>\<open>\xhh\<close>, which is what the library does with a byte that is not part of a valid
  UTF-8 sequence.
\<close>

definition IsPrint :: "char \<Rightarrow> bool" where
  "IsPrint c = (32 \<le> (of_char c :: nat) \<and> (of_char c :: nat) \<le> 126)"

definition lowerhex :: "nat \<Rightarrow> char" where
  "lowerhex n = ''0123456789abcdef'' ! (n mod 16)"

definition appendEscapedRune :: "char \<Rightarrow> string" where
  "appendEscapedRune c =
     (if c = tokenQuote \<or> c = tokenBackslash then [tokenBackslash, c]
      else if IsPrint c then [c]
      else if c = CHR 0x07 then [tokenBackslash, CHR ''a'']
      else if c = CHR 0x08 then [tokenBackslash, CHR ''b'']
      else if c = CHR 0x0C then [tokenBackslash, CHR ''f'']
      else if c = tokenLF then [tokenBackslash, CHR ''n'']
      else if c = tokenCR then [tokenBackslash, CHR ''r'']
      else if c = tokenTab then [tokenBackslash, CHR ''t'']
      else if c = CHR 0x0B then [tokenBackslash, CHR ''v'']
      else [tokenBackslash, CHR ''x'',
            lowerhex ((of_char c :: nat) div 16), lowerhex ((of_char c :: nat) mod 16)])"

definition Quote :: "string \<Rightarrow> string" where
  "Quote s = tokenQuote # concat (map appendEscapedRune s) @ [tokenQuote]"

text \<open>
  An \<^verbatim>\<open>io.Writer\<close> is a state and its \<^verbatim>\<open>Write\<close>: the bytes to write go in, the
  count written, the error or \<^verbatim>\<open>nil\<close>, and the new state come out. \<^verbatim>\<open>Fprintf\<close>
  formats its arguments and calls \<^verbatim>\<open>Write\<close> once.
\<close>

type_synonym ('w, 'e) Writer = "'w \<Rightarrow> string \<Rightarrow> int \<times> 'e option \<times> 'w"

text \<open>The two format strings: \<^verbatim>\<open>"%s=%q\n"\<close> and \<^verbatim>\<open>"[%s]\n"\<close>.\<close>

definition fmt_pair :: "string \<Rightarrow> string \<Rightarrow> string" where
  "fmt_pair k v = k @ [tokenEquals] @ Quote v @ [tokenLF]"

definition fmt_header :: "string \<Rightarrow> string" where
  "fmt_header section = [tokenSectionStart] @ section @ [tokenSectionStop, tokenLF]"

text \<open>\<^verbatim>\<open>data[k]\<close>: the value of the key, the empty string when the key is absent.\<close>

definition index_map :: "(string \<rightharpoonup> string) \<Rightarrow> string \<Rightarrow> string" where
  "index_map data k = (case data k of None \<Rightarrow> [] | Some v \<Rightarrow> v)"

text \<open>
  Go leaves the order of \<^verbatim>\<open>for k := range m\<close> open. The model takes the order of
  each loop as an argument: \<open>secs\<close> is the order in which the sections come,
  \<open>keys section\<close> the order in which the keys of a section come.

  The loop over the keys of the default section:
\<close>

fun write_default ::
  "('w, 'e) Writer \<Rightarrow> (string \<rightharpoonup> string) \<Rightarrow> string list \<Rightarrow> int \<Rightarrow> 'w \<Rightarrow> int \<times> 'e option \<times> 'w" where
  "write_default writer data [] nw w = (nw, None, w)"
| "write_default writer data (k # ks) nw w =
     (case writer w (fmt_pair k (index_map data k)) of
        (n, err, w') \<Rightarrow>
          if err \<noteq> None then (nw + n, err, w')
          else write_default writer data ks (nw + n) w')"

text \<open>The loop over the keys of a named section; \<open>index\<close> counts the keys written.\<close>

fun write_section ::
  "('w, 'e) Writer \<Rightarrow> string \<Rightarrow> (string \<rightharpoonup> string) \<Rightarrow> string list \<Rightarrow> nat \<Rightarrow> int \<Rightarrow> 'w
     \<Rightarrow> int \<times> 'e option \<times> 'w" where
  "write_section writer section data [] index nw w = (nw, None, w)"
| "write_section writer section data (k # ks) index nw w =
     (case (if index = 0 then
              (case writer w (fmt_header section) of (n, err, w') \<Rightarrow> (nw + n, err, w'))
            else (nw, None, w)) of
        (nw1, err1, w1) \<Rightarrow>
          if err1 \<noteq> None then (nw1, err1, w1)
          else
            (case writer w1 (fmt_pair k (index_map data k)) of
               (n, err, w2) \<Rightarrow>
                 if err \<noteq> None then (nw1 + n, err, w2)
                 else write_section writer section data ks (index + 1) (nw1 + n) w2))"

text \<open>The loop over the sections, which skips the default section.\<close>

fun write_sections ::
  "('w, 'e) Writer \<Rightarrow> Ini \<Rightarrow> (string \<Rightarrow> string list) \<Rightarrow> string list \<Rightarrow> int \<Rightarrow> 'w
     \<Rightarrow> int \<times> 'e option \<times> 'w" where
  "write_sections writer ini keys [] nw w = (nw, None, w)"
| "write_sections writer ini keys (section # secs) nw w =
     (if section = [] then write_sections writer ini keys secs nw w
      else
        (case write_section writer section
                (case ini section of None \<Rightarrow> Map.empty | Some m \<Rightarrow> m) (keys section) 0 nw w of
           (nw', err, w') \<Rightarrow>
             if err \<noteq> None then (nw', err, w')
             else write_sections writer ini keys secs nw' w'))"

definition WriteTo ::
  "Ini \<Rightarrow> string list \<Rightarrow> (string \<Rightarrow> string list) \<Rightarrow> ('w, 'e) Writer \<Rightarrow> 'w \<Rightarrow> int \<times> 'e option \<times> 'w" where
  "WriteTo ini secs keys writer w =
     (case (case ini [] of
              None \<Rightarrow> (0, None, w)
            | Some data \<Rightarrow> write_default writer data (keys []) 0 w) of
        (nw, err, w') \<Rightarrow>
          if err \<noteq> None then (nw, err, w')
          else write_sections writer ini keys secs nw w')"

text \<open>
  The orders a \<^verbatim>\<open>range\<close> loop can take: every section of the store once, and every
  key of a section once.
\<close>

definition range_order :: "Ini \<Rightarrow> string list \<Rightarrow> (string \<Rightarrow> string list) \<Rightarrow> bool" where
  "range_order ini secs keys \<longleftrightarrow>
     distinct secs \<and> set secs = dom ini \<and>
     (\<forall>section \<in> dom ini. distinct (keys section) \<and> set (keys section) = dom (the (ini section)))"

text \<open>\<^verbatim>\<open>bytes.Buffer\<close> as a writer: it appends everything and never fails.\<close>

definition buffer_write :: "(string, 'e) Writer" where
  "buffer_write w p = (int (length p), None, w @ p)"

section \<open>Definitions for stating the properties\<close>

text \<open>A sequence of calls of \<^verbatim>\<open>Set\<close>, each a section, a key and a value.\<close>

primrec Sets :: "Ini \<Rightarrow> (string \<times> string \<times> string) list \<Rightarrow> Ini" where
  "Sets ini [] = ini"
| "Sets ini (x # xs) = Sets (Set ini (fst x) (fst (snd x)) (snd (snd x))) xs"

text \<open>
  What a caller sees of a store after \<^verbatim>\<open>ReadFrom\<close> or \<^verbatim>\<open>Load\<close> at one section and
  key, next to the other results of the call.
\<close>

definition observe ::
  "(Ini \<times> int \<times> error option) option \<Rightarrow> string \<Rightarrow> string
     \<Rightarrow> (bool \<times> string \<times> int \<times> error option) option" where
  "observe res section key =
     (case res of
        None \<Rightarrow> None
      | Some (ini, n, err) \<Rightarrow> Some (Has ini section key, Get ini section key, n, err))"


text \<open>The text without the tabs at its end.\<close>

definition strip_trailing_tabs :: "string \<Rightarrow> string" where
  "strip_trailing_tabs cs = rev (dropWhile (\<lambda>c. c = tokenTab) (rev cs))"

text \<open>
  What the three readers keep of the text they read: a section name keeps everything
  but opening brackets and tabs, a key everything but spaces and tabs, an unquoted value
  everything but carriage returns, tabs and the spaces before its first other character.
\<close>

definition section_text :: "string \<Rightarrow> string" where
  "section_text b = filter (\<lambda>c. c \<noteq> tokenSectionStart \<and> c \<noteq> tokenTab) b"

definition key_text :: "string \<Rightarrow> string" where
  "key_text p = filter (\<lambda>c. c \<noteq> tokenSpace \<and> c \<noteq> tokenTab) p"

definition value_text :: "string \<Rightarrow> string" where
  "value_text run =
     dropWhile (\<lambda>c. c = tokenSpace) (filter (\<lambda>c. c \<noteq> tokenCR \<and> c \<noteq> tokenTab) run)"

definition accumulated :: "string \<Rightarrow> string \<Rightarrow> string" where
  "accumulated buffer run =
     (if buffer = [] then value_text run
      else buffer @ filter (\<lambda>c. c \<noteq> tokenCR \<and> c \<noteq> tokenTab) run)"

text \<open>
  The serializer in the words of the specification. The writes, in order: one per pair
  of the default section; then, for every other section that has a key, its header and
  one per pair. \<open>write_all\<close> makes these writes one after the other, adds up the
  counts and stops at the first write that fails.
\<close>

definition pair_chunks :: "(string \<rightharpoonup> string) \<Rightarrow> string list \<Rightarrow> string list" where
  "pair_chunks data ks = map (\<lambda>k. fmt_pair k (index_map data k)) ks"

definition default_chunks :: "Ini \<Rightarrow> (string \<Rightarrow> string list) \<Rightarrow> string list" where
  "default_chunks ini keys =
     (case ini [] of None \<Rightarrow> [] | Some data \<Rightarrow> pair_chunks data (keys []))"

definition section_chunks :: "Ini \<Rightarrow> (string \<Rightarrow> string list) \<Rightarrow> string \<Rightarrow> string list" where
  "section_chunks ini keys section =
     (if keys section = [] then []
      else fmt_header section #
           pair_chunks (case ini section of None \<Rightarrow> Map.empty | Some m \<Rightarrow> m) (keys section))"

definition WriteTo_chunks :: "Ini \<Rightarrow> string list \<Rightarrow> (string \<Rightarrow> string list) \<Rightarrow> string list" where
  "WriteTo_chunks ini secs keys =
     default_chunks ini keys @
     concat (map (section_chunks ini keys) (filter (\<lambda>section. section \<noteq> []) secs))"

fun write_all :: "('w, 'e) Writer \<Rightarrow> string list \<Rightarrow> int \<Rightarrow> 'w \<Rightarrow> int \<times> 'e option \<times> 'w" where
  "write_all writer [] nw w = (nw, None, w)"
| "write_all writer (p # ps) nw w =
     (case writer w p of
        (n, err, w') \<Rightarrow>
          if err \<noteq> None then (nw + n, err, w') else write_all writer ps (nw + n) w')"

text \<open>A writer that takes \<open>limit\<close> bytes and fails with \<open>e\<close> on the write that exceeds them.\<close>

definition limited_write :: "nat \<Rightarrow> 'e \<Rightarrow> (string, 'e) Writer" where
  "limited_write limit e w p =
     (if length w + length p \<le> limit then (int (length p), None, w @ p)
      else (int (limit - length w), Some e, w @ take (limit - length w) p))"

text \<open>What \<^verbatim>\<open>WriteTo\<close> leaves in an empty \<^verbatim>\<open>bytes.Buffer\<close>.\<close>

definition written :: "Ini \<Rightarrow> string list \<Rightarrow> (string \<Rightarrow> string list) \<Rightarrow> string" where
  "written ini secs keys =
     snd (snd (WriteTo ini secs keys (buffer_write :: (string, unit) Writer) []))"

text \<open>
  Strings without pathological characters. A value holds printable ASCII other than
  the double quote and the backslash. A section name holds no bracket, line break, tab
  or double quote. A key holds no space, tab, equals sign or double quote and does not
  begin with a character that starts another kind of line.
\<close>

definition plain_value :: "string \<Rightarrow> bool" where
  "plain_value v = list_all (\<lambda>c. IsPrint c \<and> c \<noteq> tokenQuote \<and> c \<noteq> tokenBackslash) v"

definition plain_section :: "string \<Rightarrow> bool" where
  "plain_section section =
     list_all (\<lambda>c. c \<noteq> tokenSectionStart \<and> c \<noteq> tokenSectionStop \<and> c \<noteq> tokenLF \<and>
                  c \<noteq> tokenCR \<and> c \<noteq> tokenTab \<and> c \<noteq> tokenQuote) section"

definition plain_key :: "string \<Rightarrow> bool" where
  "plain_key k =
     (list_all (\<lambda>c. c \<noteq> tokenSpace \<and> c \<noteq> tokenTab \<and> c \<noteq> tokenEquals \<and> c \<noteq> tokenQuote) k \<and>
      (case k of
         [] \<Rightarrow> True
       | c # cs \<Rightarrow> c \<noteq> tokenCommentClassic \<and> c \<noteq> tokenCommentHash \<and>
                  c \<noteq> tokenSectionStart \<and> c \<noteq> tokenLF \<and> c \<noteq> tokenCR))"

definition plain_store :: "Ini \<Rightarrow> bool" where
  "plain_store ini \<longleftrightarrow>
     (\<forall>section data k v. ini section = Some data \<longrightarrow> data k = Some v \<longrightarrow>
        (section \<noteq> [] \<longrightarrow> plain_section section) \<and> plain_key k \<and> plain_value v)"

text \<open>The pairs of a store in the order in which \<^verbatim>\<open>WriteTo\<close> writes them.\<close>

definition section_pairs ::
  "Ini \<Rightarrow> (string \<Rightarrow> string list) \<Rightarrow> string \<Rightarrow> (string \<times> string \<times> string) list" where
  "section_pairs ini keys section =
     map (\<lambda>k. (section, k, index_map (case ini section of None \<Rightarrow> Map.empty | Some m \<Rightarrow> m) k))
       (keys section)"

definition WriteTo_pairs ::
  "Ini \<Rightarrow> string list \<Rightarrow> (string \<Rightarrow> string list) \<Rightarrow> (string \<times> string \<times> string) list" where
  "WriteTo_pairs ini secs keys =
     (case ini [] of None \<Rightarrow> [] | Some data \<Rightarrow> section_pairs ini keys []) @
     concat (map (section_pairs ini keys) (filter (\<lambda>section. section \<noteq> []) secs))"

text \<open>The store of the package's test \<^verbatim>\<open>TestWriteTo\<close>, and one order of its sections and keys.\<close>

definition example_store :: Ini where
  "example_store =
     Sets NewIni
       [([], ''foobar'', ''absolute foobaritude''), (''PHP'', ''engine'', ''On''),
        (''PHP'', ''short_open_tag'', ''Off''), (''CLI Server'', ''cli_server.color'', ''On'')]"

definition example_secs :: "string list" where
  "example_secs = [''CLI Server'', [], ''PHP'']"

definition example_keys :: "string \<Rightarrow> string list" where
  "example_keys section =
     (if section = [] then [''foobar'']
      else if section = ''PHP'' then [''short_open_tag'', ''engine'']
      else if section = ''CLI Server'' then [''cli_server.color'']
      else [])"

section \<open>Lemmas\<close>

subsection \<open>The store\<close>

lemma Get_Set_same: "Get (Set ini s k v) s k = v"
  by (simp add: Get_def Set_def set_unsafe_def)

lemma Has_Set_same: "Has (Set ini s k v) s k"
  by (simp add: Has_def Set_def set_unsafe_def)

lemma Get_Set_other: "(s', k') \<noteq> (s, k) \<Longrightarrow> Get (Set ini s' k' v) s k = Get ini s k"
  by (auto simp: Get_def Set_def set_unsafe_def split: option.splits)

lemma Has_Set_other: "(s', k') \<noteq> (s, k) \<Longrightarrow> Has (Set ini s' k' v) s k = Has ini s k"
  by (auto simp: Has_def Set_def set_unsafe_def split: option.splits)

lemma Sets_never_set:
  "\<forall>v. (s, k, v) \<notin> set ops \<Longrightarrow>
     Get (Sets ini ops) s k = Get ini s k \<and> Has (Sets ini ops) s k = Has ini s k"
proof (induction ops arbitrary: ini)
  case Nil
  then show ?case by simp
next
  case (Cons x xs)
  obtain s' k' v' where x: "x = (s', k', v')" by (cases x)
  with Cons.prems have "(s', k') \<noteq> (s, k)" by auto
  with Cons x show ?case by (simp add: Get_Set_other Has_Set_other)
qed

lemma ReadFrom_loop_result:
  "ReadFrom_loop ini cur s = Some res \<Longrightarrow>
     (snd (snd res) = None \<longrightarrow> fst (snd res) = 0) \<and>
     (snd (snd res) \<noteq> None \<longrightarrow> fst (snd res) = - 1)"
proof (induction rule: ReadFrom_loop.raw_induct [rotated 1, consumes 1])
  case (1 f ini cur s res)
  from "1.hyps" show ?case
    by (auto simp: Let_def dest!: "1.IH" split: if_splits option.splits prod.splits sum.splits)
qed

lemma Scan_only_tabs:
  assumes "\<forall>x\<in>set (rest s). x = tokenTab"
  shows "fst (Scan s) = EOF" and "rest (snd (Scan s)) = []"
proof -
  from assms have h: "dropWhile (\<lambda>c. c = tokenTab) (rest s) = []"
    by simp
  show "fst (Scan s) = EOF" and "rest (snd (Scan s)) = []"
    unfolding Scan_fst Scan_rest h by simp_all
qed

lemma dropWhile_tabs:
  "\<forall>x\<in>set ts. x = tokenTab \<Longrightarrow> c \<noteq> tokenTab \<Longrightarrow>
     dropWhile (\<lambda>c. c = tokenTab) (ts @ c # r) = c # r"
  by (induction ts) simp_all

lemma takeWhile_tabs:
  "\<forall>x\<in>set ts. x = tokenTab \<Longrightarrow> c \<noteq> tokenTab \<Longrightarrow>
     takeWhile (\<lambda>c. c = tokenTab) (ts @ c # r) = ts"
  by (induction ts) simp_all

lemma Scan_after_tabs:
  assumes "rest s = ts @ c # r" "\<forall>x\<in>set ts. x = tokenTab" "c \<noteq> tokenTab"
  shows "fst (Scan s) = (if c = tokenQuote then String else Rune c)"
    and "rest (snd (Scan s)) = (if c = tokenQuote then snd (scanString r) else r)"
  using assms by (simp_all add: Scan_fst Scan_rest dropWhile_tabs)

lemma Scan_tokenText:
  assumes "rest s = ts @ tokenQuote # r" "\<forall>x\<in>set ts. x = tokenTab"
  shows "TokenText (snd (Scan s)) = tokenQuote # fst (scanString r)"
proof -
  define s1 where "s1 = consume (takeWhile (\<lambda>c. c = tokenTab) (rest s)) s"
  have "rest s1 = tokenQuote # r"
    unfolding s1_def rest_skip using assms by (simp add: dropWhile_tabs)
  then show ?thesis
    unfolding Scan_def Let_def s1_def [symmetric] TokenText_def
    by (simp split: prod.splits)
qed

lemma line_column_nextc:
  "rest s = c # cs \<Longrightarrow> c \<noteq> tokenLF \<Longrightarrow>
     line (nextc s) = line s \<and> column (nextc s) = column s + 1"
  by (simp add: nextc_def)

lemma line_column_consume:
  "tokenLF \<notin> set cs \<Longrightarrow> rest s = cs @ r \<Longrightarrow>
     line (consume cs s) = line s \<and> column (consume cs s) = column s + int (length cs)"
proof (induction cs arbitrary: s)
  case Nil
  then show ?case by simp
next
  case (Cons c cs)
  from Cons.prems have n: "line (nextc s) = line s \<and> column (nextc s) = column s + 1"
    by (intro line_column_nextc [of s c "cs @ r"]) auto
  from Cons.prems have "rest (nextc s) = cs @ r" by (simp add: rest_nextc)
  with Cons.IH [of "nextc s"] Cons.prems n show ?case by simp
qed

lemma Scan_position:
  assumes "rest s = ts @ c # r" "\<forall>x\<in>set ts. x = tokenTab" "c \<noteq> tokenTab"
    "c \<noteq> tokenQuote" "c \<noteq> tokenLF"
  shows "line (snd (Scan s)) = line s"
    and "column (snd (Scan s)) = column s + int (length ts) + 1"
proof -
  define s1 where "s1 = consume (takeWhile (\<lambda>c. c = tokenTab) (rest s)) s"
  from assms have tw: "takeWhile (\<lambda>c. c = tokenTab) (rest s) = ts"
    by (simp add: takeWhile_tabs)
  have r1: "rest s1 = c # r"
    unfolding s1_def rest_skip using assms by (simp add: dropWhile_tabs)
  from assms have "tokenLF \<notin> set ts" by auto
  then have p1: "line s1 = line s \<and> column s1 = column s + int (length ts)"
    unfolding s1_def tw using assms(1) by (rule line_column_consume)
  have sc: "snd (Scan s) = (nextc s1)\<lparr>tokenText := [c]\<rparr>"
    unfolding Scan_def Let_def s1_def [symmetric] using r1 assms by simp
  from line_column_nextc [OF r1 assms(5)] p1 sc
  show "line (snd (Scan s)) = line s"
    and "column (snd (Scan s)) = column s + int (length ts) + 1"
    by simp_all
qed

lemma Scan_rest_subset: "set (rest (snd (Scan s))) \<subseteq> set (rest s)"
proof -
  define d where "d = dropWhile (\<lambda>c. c = tokenTab) (rest s)"
  have d: "set d \<subseteq> set (rest s)"
    unfolding d_def by (rule set_dropWhileD [THEN subsetI])
  have "set (snd (scanString cs)) \<subseteq> set cs" for cs
    using scanString_append [of cs "fst (scanString cs)" "snd (scanString cs)"]
    by (metis Un_upper2 prod.collapse set_append)
  with d show ?thesis
    unfolding Scan_rest d_def [symmetric] by (cases d) auto
qed

lemma Scan_Rune_in_rest: "fst (Scan s) = Rune c \<Longrightarrow> c \<in> set (rest s)"
proof -
  define d where "d = dropWhile (\<lambda>c. c = tokenTab) (rest s)"
  have d: "set d \<subseteq> set (rest s)"
    unfolding d_def by (rule set_dropWhileD [THEN subsetI])
  assume "fst (Scan s) = Rune c"
  with d show ?thesis
    unfolding Scan_fst d_def [symmetric] by (cases d) (auto split: if_splits)
qed

lemma readCommentLine_returns:
  "readCommentLine s = Some s' \<Longrightarrow> tokenLF \<in> set (rest s)"
proof (induction rule: readCommentLine.raw_induct [rotated 1, consumes 1])
  case (1 f s s')
  show ?case
  proof (cases "fst (Scan s) = Rune tokenLF")
    case True
    then show ?thesis by (rule Scan_Rune_in_rest)
  next
    case False
    with "1.hyps" have "f (snd (Scan s)) = Some s'" by (simp add: Let_def)
    then have "tokenLF \<in> set (rest (snd (Scan s)))" by (rule "1.IH")
    with Scan_rest_subset [of s] show ?thesis by auto
  qed
qed

lemma readSection_loop_returns:
  "readSection_loop buffer s = Some res \<Longrightarrow>
     tokenSectionStop \<in> set (rest s) \<or> tokenLF \<in> set (rest s) \<or> tokenCR \<in> set (rest s)"
proof (induction rule: readSection_loop.raw_induct [rotated 1, consumes 1])
  case (1 f buffer s res)
  let ?goal = "tokenSectionStop \<in> set (rest s) \<or> tokenLF \<in> set (rest s) \<or> tokenCR \<in> set (rest s)"
  consider (stop) "fst (Scan s) = Rune tokenSectionStop \<or> fst (Scan s) = Rune tokenLF
       \<or> fst (Scan s) = Rune tokenCR"
    | (go) b where "f b (snd (Scan s)) = Some res"
    using "1.hyps" by (auto simp: Let_def split: if_splits)
  then show ?case
  proof cases
    case stop
    then show ?thesis by (auto dest: Scan_Rune_in_rest)
  next
    case go
    then have "tokenSectionStop \<in> set (rest (snd (Scan s))) \<or> tokenLF \<in> set (rest (snd (Scan s)))
       \<or> tokenCR \<in> set (rest (snd (Scan s)))" by (rule "1.IH")
    with Scan_rest_subset [of s] show ?thesis by auto
  qed
qed

lemma readCommentLine_diverges: "tokenLF \<notin> set (rest s) \<Longrightarrow> readCommentLine s = None"
  using readCommentLine_returns [of s] by (cases "readCommentLine s") auto

lemma readSection_diverges:
  "tokenSectionStop \<notin> set (rest s) \<Longrightarrow> tokenLF \<notin> set (rest s) \<Longrightarrow> tokenCR \<notin> set (rest s)
     \<Longrightarrow> readSection s = None"
  using readSection_loop_returns [of "[]" s] unfolding readSection_def
  by (cases "readSection_loop [] s") auto




lemma strip_trailing_tabs_all: "\<forall>x\<in>set ts. x = tokenTab \<Longrightarrow> strip_trailing_tabs ts = []"
  by (simp add: strip_trailing_tabs_def)

lemma strip_trailing_tabs_app:
  "c \<noteq> tokenTab \<Longrightarrow> strip_trailing_tabs (ts @ c # cs) = ts @ c # strip_trailing_tabs cs"
  by (simp add: strip_trailing_tabs_def dropWhile_append)

text \<open>A list splits into its leading tabs and either nothing or a first other character.\<close>

lemma tabs_split:
  obtains (tabs) "\<forall>x\<in>set b. x = tokenTab"
  | (char) ts c b' where "b = ts @ c # b'" "\<forall>x\<in>set ts. x = tokenTab" "c \<noteq> tokenTab"
proof (cases "dropWhile (\<lambda>c. c = tokenTab) b")
  case Nil
  then have "\<forall>x\<in>set b. x = tokenTab" by simp
  then show ?thesis by (rule tabs)
next
  case (Cons c b')
  have "b = takeWhile (\<lambda>c. c = tokenTab) b @ c # b'"
    using Cons takeWhile_dropWhile_id [of "\<lambda>c. c = tokenTab" b] by simp
  moreover have "\<forall>x\<in>set (takeWhile (\<lambda>c. c = tokenTab) b). x = tokenTab"
    by (auto dest: set_takeWhileD)
  moreover have "c \<noteq> tokenTab"
    using Cons hd_dropWhile [of "\<lambda>c. c = tokenTab" b] by auto
  ultimately show ?thesis by (rule char)
qed

lemma readSection_loop_body:
  "rest s = b @ t # post \<Longrightarrow>
   \<forall>c\<in>set b. c \<noteq> tokenSectionStop \<and> c \<noteq> tokenLF \<and> c \<noteq> tokenCR \<and> c \<noteq> tokenQuote \<Longrightarrow>
   (t = tokenSectionStop \<longrightarrow>
      (\<exists>s'. readSection_loop buffer s = Some (Inr (buffer @ section_text b), s') \<and> rest s' = post)) \<and>
   (t = tokenLF \<or> t = tokenCR \<longrightarrow>
      (\<exists>s'. readSection_loop buffer s =
         Some (Inl (Errorf ''While reading a section, got newline.''
           \<lparr>Line = line s, Column = column s + int (length (strip_trailing_tabs b))\<rparr>), s') \<and>
         rest s' = post))"
proof (induction b arbitrary: s buffer rule: length_induct)
  case (1 b)
  show ?case
  proof (cases b rule: tabs_split)
    case tabs
    let ?ts = "Scan s"
    have t: "t = tokenSectionStop \<or> t = tokenLF \<or> t = tokenCR \<Longrightarrow> t \<noteq> tokenTab \<and> t \<noteq> tokenQuote"
      by auto
    have f: "t = tokenSectionStop \<or> t = tokenLF \<or> t = tokenCR \<Longrightarrow> fst ?ts = Rune t"
      using Scan_after_tabs(1) [OF "1.prems"(1) tabs] t by simp
    have r: "t = tokenSectionStop \<or> t = tokenLF \<or> t = tokenCR \<Longrightarrow> rest (snd ?ts) = post"
      using Scan_after_tabs(2) [OF "1.prems"(1) tabs] t by simp
    have st: "section_text b = []"
      using tabs by (auto simp: section_text_def filter_empty_conv)
    have sp: "strip_trailing_tabs b = []" using tabs by (rule strip_trailing_tabs_all)
    show ?thesis
    proof (intro conjI impI)
      assume a: "t = tokenSectionStop"
      then have "readSection_loop buffer s = Some (Inr buffer, snd ?ts)"
        using f by (subst readSection_loop.simps) (simp add: Let_def)
      with a r st show "\<exists>s'. readSection_loop buffer s = Some (Inr (buffer @ section_text b), s') \<and> rest s' = post"
        by simp
    next
      assume a: "t = tokenLF \<or> t = tokenCR"
      then have "readSection_loop buffer s =
          Some (Inl (Errorf ''While reading a section, got newline.'' (Pos s)), snd ?ts)"
        using f by (subst readSection_loop.simps) (auto simp: Let_def)
      with a r sp show "\<exists>s'. readSection_loop buffer s =
         Some (Inl (Errorf ''While reading a section, got newline.''
           \<lparr>Line = line s, Column = column s + int (length (strip_trailing_tabs b))\<rparr>), s') \<and>
         rest s' = post"
        by (simp add: Pos_def)
    qed
  next
    case (char ts c b')
    let ?s1 = "snd (Scan s)"
    from "1.prems"(2) char(1) have c: "c \<noteq> tokenSectionStop" "c \<noteq> tokenLF" "c \<noteq> tokenCR" "c \<noteq> tokenQuote"
      by auto
    from "1.prems"(1) char(1) have rs: "rest s = ts @ c # (b' @ t # post)" by simp
    have f: "fst (Scan s) = Rune c"
      using Scan_after_tabs(1) [OF rs char(2,3)] c by simp
    have r: "rest ?s1 = b' @ t # post"
      using Scan_after_tabs(2) [OF rs char(2,3)] c by simp
    have p: "line ?s1 = line s" "column ?s1 = column s + int (length ts) + 1"
      using Scan_position [OF rs char(2,3) c(4) c(2)] by simp_all
    have len: "length b' < length b" using char(1) by simp
    have b': "\<forall>c\<in>set b'. c \<noteq> tokenSectionStop \<and> c \<noteq> tokenLF \<and> c \<noteq> tokenCR \<and> c \<noteq> tokenQuote"
      using "1.prems"(2) char(1) by simp
    define buf' where "buf' = (if c = tokenSectionStart then buffer else buffer @ [c])"
    have step: "readSection_loop buffer s = readSection_loop buf' ?s1"
      using f c by (subst readSection_loop.simps) (simp add: Let_def buf'_def WriteRune_def)
    have st: "buf' @ section_text b' = buffer @ section_text b"
      using char by (auto simp: buf'_def section_text_def filter_empty_conv)
    have sp: "int (length (strip_trailing_tabs b)) = int (length ts) + 1 + int (length (strip_trailing_tabs b'))"
      using char by (simp add: strip_trailing_tabs_app)
    from "1.IH" len have IH: "\<And>s buffer. rest s = b' @ t # post \<Longrightarrow>
      (t = tokenSectionStop \<longrightarrow>
        (\<exists>s'. readSection_loop buffer s = Some (Inr (buffer @ section_text b'), s') \<and> rest s' = post)) \<and>
      (t = tokenLF \<or> t = tokenCR \<longrightarrow>
        (\<exists>s'. readSection_loop buffer s =
           Some (Inl (Errorf ''While reading a section, got newline.''
             \<lparr>Line = line s, Column = column s + int (length (strip_trailing_tabs b'))\<rparr>), s') \<and>
           rest s' = post))"
      using b' by blast
    from IH [OF r, of buf'] show ?thesis
      unfolding step st p sp by (simp add: add.assoc)
  qed
qed

lemma readKey_loop_step:
  assumes "rest s = ts @ c # r" "\<forall>x\<in>set ts. x = tokenTab"
    "c \<noteq> tokenTab" "c \<noteq> tokenEquals" "c \<noteq> tokenQuote"
  shows "readKey_loop buffer s =
           readKey_loop (if c = tokenSpace then buffer else buffer @ [c]) (snd (Scan s))"
    and "rest (snd (Scan s)) = r"
proof -
  have f: "fst (Scan s) = Rune c"
    using Scan_after_tabs(1) [OF assms(1-3)] assms(5) by simp
  show "rest (snd (Scan s)) = r"
    using Scan_after_tabs(2) [OF assms(1-3)] assms(5) by simp
  show "readKey_loop buffer s =
           readKey_loop (if c = tokenSpace then buffer else buffer @ [c]) (snd (Scan s))"
    using f assms(4) by (subst readKey_loop.simps) (simp add: Let_def WriteRune_def)
qed

lemma readKey_loop_body:
  "rest s = p @ e \<Longrightarrow> \<forall>c\<in>set p. c \<noteq> tokenEquals \<and> c \<noteq> tokenQuote \<Longrightarrow>
   (\<forall>post. e = tokenEquals # post \<longrightarrow>
      (\<exists>s'. readKey_loop buffer s = (Inr (buffer @ key_text p), s') \<and> rest s' = post)) \<and>
   (e = [] \<longrightarrow>
      (\<exists>pos s'. readKey_loop buffer s = (Inl (Errorf ''While reading a key, got EOF.'' pos), s'))) \<and>
   (\<forall>post. e = tokenQuote # post \<longrightarrow>
      (\<exists>pos s'. readKey_loop buffer s = (Inl (Errorf ''While reading a key, got string.'' pos), s')))"
proof (induction p arbitrary: s buffer rule: length_induct)
  case (1 p)
  show ?case
  proof (cases p rule: tabs_split)
    case tabs
    have kt: "key_text p = []"
      using tabs by (auto simp: key_text_def filter_empty_conv)
    show ?thesis
    proof (intro conjI allI impI)
      fix post assume e: "e = tokenEquals # post"
      with "1.prems"(1) have rs: "rest s = p @ tokenEquals # post" by simp
      have "fst (Scan s) = Rune tokenEquals" "rest (snd (Scan s)) = post"
        using Scan_after_tabs [OF rs tabs] by simp_all
      then show "\<exists>s'. readKey_loop buffer s = (Inr (buffer @ key_text p), s') \<and> rest s' = post"
        by (subst readKey_loop.simps) (simp add: Let_def kt)
    next
      assume e: "e = []"
      with "1.prems"(1) tabs have "\<forall>x\<in>set (rest s). x = tokenTab" by simp
      then have "fst (Scan s) = EOF" by (rule Scan_only_tabs)
      then show "\<exists>pos s'. readKey_loop buffer s = (Inl (Errorf ''While reading a key, got EOF.'' pos), s')"
        by (subst readKey_loop.simps) (simp add: Let_def)
    next
      fix post assume e: "e = tokenQuote # post"
      with "1.prems"(1) have rs: "rest s = p @ tokenQuote # post" by simp
      have "fst (Scan s) = String"
        using Scan_after_tabs(1) [OF rs tabs] by simp
      then show "\<exists>pos s'. readKey_loop buffer s = (Inl (Errorf ''While reading a key, got string.'' pos), s')"
        by (subst readKey_loop.simps) (simp add: Let_def)
    qed
  next
    case (char ts c p')
    from "1.prems"(2) char(1) have c: "c \<noteq> tokenEquals" "c \<noteq> tokenQuote" by auto
    from "1.prems"(1) char(1) have rs: "rest s = ts @ c # (p' @ e)" by simp
    define buf' where "buf' = (if c = tokenSpace then buffer else buffer @ [c])"
    note step = readKey_loop_step(1) [OF rs char(2,3) c, of buffer, folded buf'_def]
      readKey_loop_step(2) [OF rs char(2,3) c]
    have kt: "buf' @ key_text p' = buffer @ key_text p"
      using char by (auto simp: buf'_def key_text_def filter_empty_conv)
    have p': "\<forall>c\<in>set p'. c \<noteq> tokenEquals \<and> c \<noteq> tokenQuote"
      using "1.prems"(2) char(1) by simp
    have len: "length p' < length p" using char(1) by simp
    from "1.IH" [rule_format, OF len step(2) p' [rule_format], of buf'] show ?thesis
      unfolding step(1) kt .
  qed
qed

lemma readValue_loop_step:
  assumes "rest s = ts @ c # r" "\<forall>x\<in>set ts. x = tokenTab"
    "c \<noteq> tokenTab" "c \<noteq> tokenLF" "c \<noteq> tokenQuote"
  shows "readValue_loop buffer s =
           readValue_loop (if c = tokenCR \<or> c = tokenSpace \<and> buffer = [] then buffer else buffer @ [c])
             (snd (Scan s))"
    and "rest (snd (Scan s)) = r"
proof -
  have f: "fst (Scan s) = Rune c"
    using Scan_after_tabs(1) [OF assms(1-3)] assms(5) by simp
  show "rest (snd (Scan s)) = r"
    using Scan_after_tabs(2) [OF assms(1-3)] assms(5) by simp
  show "readValue_loop buffer s =
           readValue_loop (if c = tokenCR \<or> c = tokenSpace \<and> buffer = [] then buffer else buffer @ [c])
             (snd (Scan s))"
    using f assms(4) by (subst readValue_loop.simps) (simp add: Let_def WriteRune_def)
qed

lemma readValue_loop_body:
  "rest s = run @ e \<Longrightarrow> \<forall>c\<in>set run. c \<noteq> tokenLF \<and> c \<noteq> tokenQuote \<Longrightarrow>
   (\<forall>post. e = tokenLF # post \<longrightarrow>
      (\<exists>s'. readValue_loop buffer s = (Inr (accumulated buffer run), s') \<and> rest s' = post)) \<and>
   (e = [] \<longrightarrow>
      (\<exists>s'. readValue_loop buffer s = (Inr (accumulated buffer run), s') \<and> rest s' = [])) \<and>
   (\<forall>post. e = tokenQuote # post \<longrightarrow>
      (\<exists>s'. readValue_loop buffer s =
         (Inr (TrimRight (TrimLeft (tokenQuote # fst (scanString post)) [tokenQuote]) [tokenQuote]), s') \<and>
         rest s' = snd (scanString post)))"
proof (induction run arbitrary: s buffer rule: length_induct)
  case (1 run)
  show ?case
  proof (cases run rule: tabs_split)
    case tabs
    have ac: "accumulated buffer run = buffer"
      using tabs by (auto simp: accumulated_def value_text_def filter_empty_conv)
    show ?thesis
    proof (intro conjI allI impI)
      fix post assume e: "e = tokenLF # post"
      with "1.prems"(1) have rs: "rest s = run @ tokenLF # post" by simp
      have "fst (Scan s) = Rune tokenLF" "rest (snd (Scan s)) = post"
        using Scan_after_tabs [OF rs tabs] by simp_all
      then show "\<exists>s'. readValue_loop buffer s = (Inr (accumulated buffer run), s') \<and> rest s' = post"
        by (subst readValue_loop.simps) (simp add: Let_def ac)
    next
      assume e: "e = []"
      with "1.prems"(1) tabs have "\<forall>x\<in>set (rest s). x = tokenTab" by simp
      then have "fst (Scan s) = EOF" "rest (snd (Scan s)) = []" by (rule Scan_only_tabs)+
      then show "\<exists>s'. readValue_loop buffer s = (Inr (accumulated buffer run), s') \<and> rest s' = []"
        by (subst readValue_loop.simps) (simp add: Let_def ac)
    next
      fix post assume e: "e = tokenQuote # post"
      with "1.prems"(1) have rs: "rest s = run @ tokenQuote # post" by simp
      have "fst (Scan s) = String" "rest (snd (Scan s)) = snd (scanString post)"
        using Scan_after_tabs [OF rs tabs] by simp_all
      moreover have "TokenText (snd (Scan s)) = tokenQuote # fst (scanString post)"
        using rs tabs by (rule Scan_tokenText)
      ultimately show "\<exists>s'. readValue_loop buffer s =
         (Inr (TrimRight (TrimLeft (tokenQuote # fst (scanString post)) [tokenQuote]) [tokenQuote]), s') \<and>
         rest s' = snd (scanString post)"
        by (subst readValue_loop.simps) (simp add: Let_def)
    qed
  next
    case (char ts c run')
    from "1.prems"(2) char(1) have c: "c \<noteq> tokenLF" "c \<noteq> tokenQuote" by auto
    from "1.prems"(1) char(1) have rs: "rest s = ts @ c # (run' @ e)" by simp
    define buf' where
      "buf' = (if c = tokenCR \<or> c = tokenSpace \<and> buffer = [] then buffer else buffer @ [c])"
    note step = readValue_loop_step(1) [OF rs char(2,3) c, of buffer, folded buf'_def]
      readValue_loop_step(2) [OF rs char(2,3) c]
    have ac: "accumulated buf' run' = accumulated buffer run"
      using char by (auto simp: buf'_def accumulated_def value_text_def filter_empty_conv)
    have r': "\<forall>c\<in>set run'. c \<noteq> tokenLF \<and> c \<noteq> tokenQuote"
      using "1.prems"(2) char(1) by simp
    have len: "length run' < length run" using char(1) by simp
    from "1.IH" [rule_format, OF len step(2) r' [rule_format], of buf'] show ?thesis
      unfolding step(1) ac .
  qed
qed

subsection \<open>The serializer writes the chunks in order\<close>

lemma write_default_all:
  "write_default writer data ks nw w = write_all writer (pair_chunks data ks) nw w"
  by (induction ks arbitrary: nw w) (simp_all add: pair_chunks_def split: prod.splits)

lemma write_section_all:
  "write_section writer section data ks index nw w =
     write_all writer
       ((if index = 0 \<and> ks \<noteq> [] then [fmt_header section] else []) @ pair_chunks data ks) nw w"
proof (induction ks arbitrary: index nw w)
  case Nil
  then show ?case by (simp add: pair_chunks_def)
next
  case (Cons k ks)
  show ?case
    by (cases "index = 0") (simp_all add: Cons.IH pair_chunks_def split: prod.splits)
qed

lemma write_all_append:
  "write_all writer (ps @ qs) nw w =
     (case write_all writer ps nw w of
        (nw', err, w') \<Rightarrow> if err \<noteq> None then (nw', err, w') else write_all writer qs nw' w')"
  by (induction ps arbitrary: nw w) (auto split: prod.splits)

lemma write_sections_all:
  "write_sections writer ini keys secs nw w =
     write_all writer
       (concat (map (section_chunks ini keys) (filter (\<lambda>section. section \<noteq> []) secs))) nw w"
proof (induction secs arbitrary: nw w)
  case Nil
  then show ?case by simp
next
  case (Cons sec secs)
  show ?case
  proof (cases "sec = []")
    case True
    then show ?thesis by (simp add: Cons.IH)
  next
    case False
    have one: "write_section writer sec (case ini sec of None \<Rightarrow> Map.empty | Some m \<Rightarrow> m)
        (keys sec) 0 nw w = write_all writer (section_chunks ini keys sec) nw w"
      by (simp add: write_section_all section_chunks_def pair_chunks_def)
    from False show ?thesis
      unfolding write_sections.simps one
      by (simp add: Cons.IH write_all_append [of writer "section_chunks ini keys sec"]
            split: prod.splits)
  qed
qed

lemma WriteTo_all:
  "WriteTo ini secs keys writer w = write_all writer (WriteTo_chunks ini secs keys) 0 w"
  by (simp add: WriteTo_def WriteTo_chunks_def default_chunks_def write_default_all
        write_sections_all write_all_append split: option.splits prod.splits)

lemma write_all_buffer:
  "write_all buffer_write ps nw w = (nw + int (length (concat ps)), None, w @ concat ps)"
  by (induction ps arbitrary: nw w) (simp_all add: buffer_write_def)

lemma written_chunks: "written ini secs keys = concat (WriteTo_chunks ini secs keys)"
  by (simp add: written_def WriteTo_all write_all_buffer)

lemma pair_in_chunks:
  assumes "range_order ini secs keys" "ini section = Some data" "data k = Some v"
  shows "fmt_pair k v \<in> set (WriteTo_chunks ini secs keys)"
proof -
  from assms have sec: "section \<in> set secs" and k: "k \<in> set (keys section)"
    by (auto simp: range_order_def dom_def)
  have iv: "index_map data k = v" using assms(3) by (simp add: index_map_def)
  show ?thesis
  proof (cases "section = []")
    case True
    with assms(2) k iv show ?thesis
      by (auto simp: WriteTo_chunks_def default_chunks_def pair_chunks_def)
  next
    case False
    from k have "keys section \<noteq> []" by auto
    with k iv assms(2) have "fmt_pair k v \<in> set (section_chunks ini keys section)"
      by (auto simp: section_chunks_def pair_chunks_def)
    with sec False show ?thesis
      by (auto simp: WriteTo_chunks_def)
  qed
qed

section \<open>The claims\<close>

subsection \<open>C4: the accessor contract of the store\<close>

text \<open>
  C4. A section and key that no \<^verbatim>\<open>Set\<close> has named read as the empty string with
  \<^verbatim>\<open>Get\<close> and as absent with \<^verbatim>\<open>Has\<close>, in the new store and after any sequence of
  \<^verbatim>\<open>Set\<close> calls on other pairs; after \<^verbatim>\<open>Set(s, k, v)\<close>, \<^verbatim>\<open>Get(s, k)\<close> is \<open>v\<close> and
  \<^verbatim>\<open>Has(s, k)\<close> is true, for all strings, the empty ones included.
\<close>

theorem store_accessor_contract:
  "((\<forall>v. (s, k, v) \<notin> set ops) \<longrightarrow>
      Get (Sets NewIni ops) s k = [] \<and> \<not> Has (Sets NewIni ops) s k) \<and>
   Get (Set ini s k v) s k = v \<and> Has (Set ini s k v) s k"
  using Sets_never_set [of s k ops NewIni]
  by (simp add: Get_Set_same Has_Set_same) (simp add: Get_def Has_def NewIni_def)

theorem store_accessor_contract_witness:
  "(\<forall>v. ([], ''foo'', v) \<notin> set [(''bar'', ''foo'', ''1''), ([], ''baz'', [])]) \<and>
   Get (Sets NewIni [(''bar'', ''foo'', ''1''), ([], ''baz'', [])]) [] ''foo'' = [] \<and>
   \<not> Has (Sets NewIni [(''bar'', ''foo'', ''1''), ([], ''baz'', [])]) [] ''foo'' \<and>
   Get (Set NewIni [] ''foo'' ''bar'') [] ''foo'' = ''bar'' \<and> Has (Set NewIni [] ''foo'' ''bar'') [] ''foo''"
  using store_accessor_contract
    [of "[]" "''foo''" "[(''bar'', ''foo'', ''1''), ([], ''baz'', [])]" NewIni "''bar''"]
  by simp

subsection \<open>C10: the integer result of ReadFrom\<close>

text \<open>
  C10. The integer that \<^verbatim>\<open>ReadFrom\<close> returns carries no byte count: it is 0 when the
  call succeeds and -1 when it fails, whatever the input.
\<close>

theorem ReadFrom_result_code:
  "ReadFrom ini r = Some (ini', n, err) \<Longrightarrow>
     (err = None \<longrightarrow> n = 0) \<and> (err \<noteq> None \<longrightarrow> n = - 1)"
  using ReadFrom_loop_result [of ini "[]" "Init r" "(ini', n, err)"] by (simp add: ReadFrom_def)

theorem ReadFrom_result_code_witness:
  "(\<exists>ini'. ReadFrom NewIni ''foo=bar'' = Some (ini', 0, None)) \<and>
   (\<exists>ini' e. ReadFrom NewIni ''foo'' = Some (ini', - 1, Some e))"
proof -
  have "observe (ReadFrom NewIni ''foo=bar'') [] ''foo'' = Some (True, ''bar'', 0, None)"
    by code_simp
  then obtain ini1 n1 where r1: "ReadFrom NewIni ''foo=bar'' = Some (ini1, n1, None)"
    by (auto simp: observe_def split: option.splits)
  have "observe (ReadFrom NewIni ''foo'') [] ''foo'' =
      Some (False, [], - 1, Some (Errorf ''While reading a key, got EOF.'' \<lparr>Line = 1, Column = 4\<rparr>))"
    by code_simp
  then obtain ini2 n2 e where r2: "ReadFrom NewIni ''foo'' = Some (ini2, n2, Some e)"
    by (auto simp: observe_def split: option.splits)
  from ReadFrom_result_code [OF r1] ReadFrom_result_code [OF r2] r1 r2
  show ?thesis by simp
qed

subsection \<open>C3: what a syntax error leaves behind\<close>




subsection \<open>C2: termination\<close>

text \<open>
  C2 fails on the code: \<^verbatim>\<open>readCommentLine\<close> returns only on a line feed and
  \<^verbatim>\<open>readSection\<close> only on a closing bracket, a line feed or a carriage return, and
  the scanner answers every call after the end of the input with \<^verbatim>\<open>EOF\<close>. A comment
  or a section header that the end of the input interrupts is read forever, by
  \<^verbatim>\<open>Load\<close> and by \<^verbatim>\<open>ReadFrom\<close>.
\<close>

theorem interrupted_comment_or_header_never_returns:
  "Load ''# comment'' = None \<and> ReadFrom NewIni ''# comment'' = None \<and>
   Load ''[section'' = None \<and> ReadFrom NewIni ''[section'' = None"
  unfolding Load_def ReadFrom_def
  by (subst Load_loop.simps, subst ReadFrom_loop.simps, subst Load_loop.simps, subst ReadFrom_loop.simps)
     (simp add: Peek_def Init_def readCommentLine_diverges readSection_diverges)

subsection \<open>C1: the value of a quoted string\<close>

text \<open>
  C1 fails on the code where the text between the quotes ends with an escaped quote:
  \<^verbatim>\<open>TrimRight\<close> removes every double quote at the end of the token text, not one. The
  value of the line \<^verbatim>\<open>k="a\""\<close> is stored as \<^verbatim>\<open>a\<close> and a backslash, where one quote
  stripped on each side leaves \<^verbatim>\<open>a\"\<close>.
\<close>

theorem quoted_value_ending_in_escaped_quote:
  "fst (readValue (Init [tokenQuote, CHR ''a'', tokenBackslash, tokenQuote, tokenQuote])) =
     Inr [CHR ''a'', tokenBackslash] \<and>
   observe (ReadFrom NewIni (''k='' @ [tokenQuote, CHR ''a'', tokenBackslash, tokenQuote, tokenQuote]))
       [] ''k'' = Some (True, [CHR ''a'', tokenBackslash], 0, None)"
  by code_simp

subsection \<open>C6: reading a section name\<close>

text \<open>
  C6, as stated, fails: the name is not the text between the brackets verbatim, since
  the scanner skips tabs. The header \<^verbatim>\<open>[a\<close>, tab, \<^verbatim>\<open>b]\<close> names the section \<open>ab\<close>.
\<close>

theorem section_name_drops_tab:
  "map_option fst (readSection (Init (''[a'' @ [tokenTab] @ ''b]''))) = Some (Inr ''ab'') \<and>
   ''ab'' \<noteq> ''a'' @ [tokenTab] @ ''b''"
  by code_simp

text \<open>
  C6, amended. For every input that begins with an opening bracket and holds no double
  quote before the first closing bracket, line feed or carriage return: when that
  character is the closing bracket, the reader consumes the input up to and including
  it, and the name is the text between the brackets without its tabs, which the scanner
  skips, and without any further opening bracket; when it is a line feed or a carriage
  return, the parse fails with the error of the unterminated header, at the line of the
  header and the column of that newline or, when tabs stand directly before the
  newline, of the first of these tabs.
\<close>

theorem readSection_header:
  assumes "rest s = tokenSectionStart # b @ t # post"
    and "\<forall>c\<in>set b. c \<noteq> tokenSectionStop \<and> c \<noteq> tokenLF \<and> c \<noteq> tokenCR \<and> c \<noteq> tokenQuote"
  shows "(t = tokenSectionStop \<longrightarrow>
            (\<exists>s'. readSection s = Some (Inr (section_text b), s') \<and> rest s' = post)) \<and>
         (t = tokenLF \<or> t = tokenCR \<longrightarrow>
            (\<exists>s'. readSection s =
               Some (Inl (Errorf ''While reading a section, got newline.''
                 \<lparr>Line = line s,
                  Column = column s + 1 + int (length (strip_trailing_tabs b))\<rparr>), s') \<and>
               rest s' = post))"
proof -
  have r: "rest s = (tokenSectionStart # b) @ t # post" using assms(1) by simp
  have b: "\<forall>c\<in>set (tokenSectionStart # b).
      c \<noteq> tokenSectionStop \<and> c \<noteq> tokenLF \<and> c \<noteq> tokenCR \<and> c \<noteq> tokenQuote"
    using assms(2) by simp
  have st: "section_text (tokenSectionStart # b) = section_text b"
    by (simp add: section_text_def)
  have sp: "int (length (strip_trailing_tabs (tokenSectionStart # b))) =
      1 + int (length (strip_trailing_tabs b))"
    using strip_trailing_tabs_app [of tokenSectionStart "[]" b] by simp
  from readSection_loop_body [OF r b, of "[]"] show ?thesis
    unfolding readSection_def st sp by (simp add: add.assoc)
qed

theorem readSection_header_witness:
  "(\<exists>s'. readSection (Init (''[a'' @ [tokenTab] @ ''[b]k=v'')) = Some (Inr ''ab'', s') \<and>
      rest s' = ''k=v'') \<and>
   (\<exists>s'. readSection (Init (''[ab'' @ [tokenLF] @ ''k=v'')) =
      Some (Inl (Errorf ''While reading a section, got newline.'' \<lparr>Line = 1, Column = 4\<rparr>), s') \<and>
      rest s' = ''k=v'')"
  using readSection_header [of "Init (''[a'' @ [tokenTab] @ ''[b]k=v'')" "''a'' @ [tokenTab] @ ''[b''"
      tokenSectionStop "''k=v''"]
    readSection_header [of "Init (''[ab'' @ [tokenLF] @ ''k=v'')" "''ab''" tokenLF "''k=v''"]
  by (simp add: Init_def section_text_def strip_trailing_tabs_def)

subsection \<open>C7: reading a key\<close>

text \<open>
  C7, as stated, fails: spaces are not the only characters that the key loses, the
  scanner skips tabs as well. The line \<^verbatim>\<open>a\<close>, tab, \<^verbatim>\<open>b=1\<close> has the key \<open>ab\<close>.
\<close>

theorem key_drops_tab:
  "fst (readKey (Init (''a'' @ [tokenTab] @ ''b=1''))) = Inr ''ab'' \<and>
   ''ab'' \<noteq> ''a'' @ [tokenTab] @ ''b''"
  by code_simp

text \<open>
  C7, amended. In key position the reader drops the spaces and the tabs and accumulates
  every other character until it has consumed an equals sign; the accumulated text is
  the key. It fails with an error that carries a position when the input ends before an
  equals sign, and when a double quote, which starts a quoted-string token, comes
  before an equals sign.
\<close>

theorem readKey_key:
  assumes "rest s = p @ e"
    and "\<forall>c\<in>set p. c \<noteq> tokenEquals \<and> c \<noteq> tokenQuote"
  shows "(\<forall>post. e = tokenEquals # post \<longrightarrow>
            (\<exists>s'. readKey s = (Inr (key_text p), s') \<and> rest s' = post)) \<and>
         (e = [] \<longrightarrow>
            (\<exists>pos s'. readKey s = (Inl (Errorf ''While reading a key, got EOF.'' pos), s'))) \<and>
         (\<forall>post. e = tokenQuote # post \<longrightarrow>
            (\<exists>pos s'. readKey s = (Inl (Errorf ''While reading a key, got string.'' pos), s')))"
  using readKey_loop_body [OF assms, of "[]"] unfolding readKey_def by simp

theorem readKey_key_witness:
  "(\<exists>s'. readKey (Init (''a b'' @ [tokenTab] @ ''c = 1'')) = (Inr ''abc'', s') \<and> rest s' = '' 1'') \<and>
   (\<exists>pos s'. readKey (Init ''abc'') = (Inl (Errorf ''While reading a key, got EOF.'' pos), s')) \<and>
   (\<exists>pos s'. readKey (Init (''ab'' @ [tokenQuote] @ ''c=1'')) =
      (Inl (Errorf ''While reading a key, got string.'' pos), s'))"
  using readKey_key [of "Init (''a b'' @ [tokenTab] @ ''c = 1'')" "''a b'' @ [tokenTab] @ ''c ''" "''= 1''"]
    readKey_key [of "Init ''abc''" "''abc''" "[]"]
    readKey_key [of "Init (''ab'' @ [tokenQuote] @ ''c=1'')" "''ab''" "[tokenQuote] @ ''c=1''"]
  by (simp add: Init_def key_text_def)

subsection \<open>C8: reading an unquoted value\<close>

text \<open>
  C8. A value run without a double quote is read up to the first line feed, which is
  consumed, or up to the end of the input, and the result is the accumulated text:
  the run without its carriage returns (and without the tabs that the scanner skips)
  and without the spaces that come before the first accumulated character; the spaces
  after it, inside the value and at its end, are kept. The line \<^verbatim>\<open>k=v\<close> with three
  spaces and a line feed after it stores \<open>v\<close> with the three spaces.
\<close>

theorem readValue_unquoted:
  assumes "rest s = run @ e"
    and "\<forall>c\<in>set run. c \<noteq> tokenLF \<and> c \<noteq> tokenQuote"
  shows "(\<forall>post. e = tokenLF # post \<longrightarrow>
            (\<exists>s'. readValue s = (Inr (value_text run), s') \<and> rest s' = post)) \<and>
         (e = [] \<longrightarrow> (\<exists>s'. readValue s = (Inr (value_text run), s') \<and> rest s' = []))"
  using readValue_loop_body [OF assms, of "[]"] unfolding readValue_def
  by (simp add: accumulated_def)

theorem readValue_unquoted_witness:
  "(\<exists>s'. readValue (Init (''  v   '' @ [tokenCR, tokenLF] @ ''x=y'')) = (Inr ''v   '', s') \<and>
      rest s' = ''x=y'') \<and>
   (\<exists>s'. readValue (Init '' a b '') = (Inr ''a b '', s') \<and> rest s' = []) \<and>
   observe (ReadFrom NewIni (''k=v   '' @ [tokenLF])) [] ''k'' = Some (True, ''v   '', 0, None)"
proof -
  have "observe (ReadFrom NewIni (''k=v   '' @ [tokenLF])) [] ''k'' = Some (True, ''v   '', 0, None)"
    by code_simp
  then show ?thesis
    using readValue_unquoted [of "Init (''  v   '' @ [tokenCR, tokenLF] @ ''x=y'')"
        "''  v   '' @ [tokenCR]" "[tokenLF] @ ''x=y''"]
      readValue_unquoted [of "Init '' a b ''" "'' a b ''" "[]"]
    by (simp add: Init_def value_text_def)
qed

end
